theory Spec2Isabelle
  imports Complex_Main
begin

section \<open>C arithmetic used by mpi\_trap2.c\<close>

text \<open>
  The program computes with C \<open>int\<close> (32 bits) and \<open>double\<close>.  Integers are modelled
  as \<open>int\<close>; the two places where a value can leave the range of \<open>int\<close> or a modulus
  can be zero inside \<open>Get_input\<close> are branches of the model (\<open>pow2_int\<close>, \<open>Get_input_body\<close>).
  C's \<open>/\<close> and \<open>%\<close> truncate toward zero.
\<close>

definition INT_MAX :: int where
  "INT_MAX = 2147483647"

definition INT_MIN :: int where
  "INT_MIN = - 2147483648"

definition c_div :: "int \<Rightarrow> int \<Rightarrow> int" where
  "c_div k l = sgn k * sgn l * (\<bar>k\<bar> div \<bar>l\<bar>)"

definition c_mod :: "int \<Rightarrow> int \<Rightarrow> int" where
  "c_mod k l = sgn k * (\<bar>k\<bar> mod \<bar>l\<bar>)"

text \<open>
  Double precision is a parameter: a carrier \<open>'d\<close> and the operations the program uses.
  Nothing is assumed about them (no associativity, no commutativity, no exactness), so a
  theorem that holds for every \<open>'d fpu\<close> holds for IEEE binary64 with the platform's libm.
  \<open>of_int_d\<close> is the conversion \<open>int \<rightarrow> double\<close>, \<open>flog\<close> is libm's \<open>log\<close>, and
  \<open>fceil\<close> is libm's \<open>ceil\<close> followed by the conversion to \<open>int\<close> of the assignment
  \<open>count = ceil(...)\<close>.
\<close>

record 'd fpu =
  fadd :: "'d \<Rightarrow> 'd \<Rightarrow> 'd"
  fsub :: "'d \<Rightarrow> 'd \<Rightarrow> 'd"
  fmul :: "'d \<Rightarrow> 'd \<Rightarrow> 'd"
  fdiv :: "'d \<Rightarrow> 'd \<Rightarrow> 'd"
  of_int_d :: "int \<Rightarrow> 'd"
  flog :: "'d \<Rightarrow> 'd"
  fceil :: "'d \<Rightarrow> int"

text \<open>The arithmetic of the reals, at which the model is evaluated on concrete inputs.\<close>

definition exact_fpu :: "real fpu" where
  "exact_fpu = \<lparr> fadd = (+), fsub = (-), fmul = (*), fdiv = (/),
                 of_int_d = of_int, flog = ln, fceil = ceiling \<rparr>"


section \<open>The integrand and the serial trapezoidal rule\<close>

text \<open>\<open>double f(double x) { return x*x; }\<close>\<close>

definition f :: "'d fpu \<Rightarrow> 'd \<Rightarrow> 'd" where
  "f fp x = fmul fp x x"

text \<open>
  To count the evaluations of the integrand, every call of \<open>f\<close> made by \<open>Trap\<close> is logged:
  the second component is the list of arguments \<open>f\<close> has been called with so far.
\<close>

definition f_call :: "'d fpu \<Rightarrow> 'd \<Rightarrow> 'd list \<Rightarrow> 'd \<times> 'd list" where
  "f_call fp x evals = (f fp x, evals @ [x])"

text \<open>
  \<^verbatim>\<open>for (i = 1; i <= trap_count-1; i++) { x = left_endpt + i*base_len; estimate += f(x); }\<close>
  The bound \<open>trap_count-1\<close> is within \<open>int\<close> for every \<open>trap_count\<close> above the least
  \<open>int\<close>, and \<open>i\<close> stays at most \<open>trap_count\<close>.
\<close>

function Trap_loop ::
  "'d fpu \<Rightarrow> 'd \<Rightarrow> int \<Rightarrow> 'd \<Rightarrow> int \<Rightarrow> 'd \<times> 'd list \<Rightarrow> 'd \<times> 'd list" where
  "Trap_loop fp left_endpt trap_count base_len i (estimate, evals) =
     (if i \<le> trap_count - 1 then
        (let x = fadd fp left_endpt (fmul fp (of_int_d fp i) base_len);
             (y, evals') = f_call fp x evals
         in Trap_loop fp left_endpt trap_count base_len (i + 1) (fadd fp estimate y, evals'))
      else (estimate, evals))"
  by pat_completeness auto
termination
  by (relation "measure (\<lambda>(fp, l, c, h, i, s). nat (c - i))") auto

declare Trap_loop.simps [simp del]

text \<open>
  \<^verbatim>\<open>estimate = (f(left_endpt) + f(right_endpt))/2.0; <loop> estimate = estimate*base_len;\<close>
  \<open>Trap_run\<close> returns the estimate together with the log of evaluation points.
\<close>

definition Trap_run :: "'d fpu \<Rightarrow> 'd \<Rightarrow> 'd \<Rightarrow> int \<Rightarrow> 'd \<Rightarrow> 'd \<times> 'd list" where
  "Trap_run fp left_endpt right_endpt trap_count base_len =
     (let (fl, e1) = f_call fp left_endpt [];
          (fr, e2) = f_call fp right_endpt e1;
          estimate = fdiv fp (fadd fp fl fr) (of_int_d fp 2);
          (estimate', e3) = Trap_loop fp left_endpt trap_count base_len 1 (estimate, e2)
      in (fmul fp estimate' base_len, e3))"

definition Trap :: "'d fpu \<Rightarrow> 'd \<Rightarrow> 'd \<Rightarrow> int \<Rightarrow> 'd \<Rightarrow> 'd" where
  "Trap fp left_endpt right_endpt trap_count base_len =
     fst (Trap_run fp left_endpt right_endpt trap_count base_len)"


text \<open>The interior points \<open>left_endpt + i*base_len\<close> for \<open>i = 1 .. trap_count - 1\<close>.\<close>

definition interior :: "'d fpu \<Rightarrow> 'd \<Rightarrow> int \<Rightarrow> 'd \<Rightarrow> 'd list" where
  "interior fp left_endpt trap_count base_len =
     map (\<lambda>i. fadd fp left_endpt (fmul fp (of_int_d fp i) base_len)) [1 .. trap_count - 1]"


section \<open>Partition and local computation in main\<close>

text \<open>
  Lines 61--69 of \<open>main\<close>:
  \<^verbatim>\<open>h = (b-a)/n; local_n = n/comm_sz; local_a = a + my_rank*local_n*h;\<close>
  \<^verbatim>\<open>local_b = local_a + local_n*h; local_int = Trap(local_a, local_b, local_n, h);\<close>
  \<open>my_rank*local_n\<close> is an \<open>int\<close> product, converted to \<open>double\<close> for the product with \<open>h\<close>.
\<close>

record 'd locals =
  h :: 'd
  local_n :: int
  local_a :: 'd
  local_b :: 'd
  local_int :: 'd

definition main_local :: "'d fpu \<Rightarrow> int \<Rightarrow> int \<Rightarrow> 'd \<Rightarrow> 'd \<Rightarrow> int \<Rightarrow> 'd locals" where
  "main_local fp my_rank comm_sz a b n =
     (let h = fdiv fp (fsub fp b a) (of_int_d fp n);
          local_n = c_div n comm_sz;
          local_a = fadd fp a (fmul fp (of_int_d fp (my_rank * local_n)) h);
          local_b = fadd fp local_a (fmul fp (of_int_d fp local_n) h);
          local_int = Trap fp local_a local_b local_n h
      in \<lparr> h = h, local_n = local_n, local_a = local_a, local_b = local_b,
           local_int = local_int \<rparr>)"

text \<open>
  The partition as the specification words it: \<open>Partition(rank, N, config)\<close> returns
  \<open>(local_a, local_b, local_n)\<close>, with the quotient \<open>n / N\<close> rounded toward zero.
\<close>

definition trunc_quot :: "int \<Rightarrow> int \<Rightarrow> int" where
  "trunc_quot n N = (if 0 \<le> n then n div N else - ((- n) div N))"

definition Partition :: "'d fpu \<Rightarrow> int \<Rightarrow> int \<Rightarrow> 'd \<Rightarrow> 'd \<Rightarrow> int \<Rightarrow> 'd \<times> 'd \<times> int" where
  "Partition fp rank N a b n =
     (let local_n = trunc_quot n N;
          step = fdiv fp (fsub fp b a) (of_int_d fp n);
          la = fadd fp a (fmul fp (of_int_d fp (rank * local_n)) step);
          lb = fadd fp la (fmul fp (of_int_d fp local_n) step)
      in (la, lb, local_n))"


section \<open>Get\_input: setup, input at the root, broadcast\<close>

text \<open>What can go wrong in a run.\<close>

datatype failure =
    IntOverflow
  | DivByZero
  | NullStream
  | InvalidRank int int
  | Blocked int int

text \<open>
  \<open>IntOverflow\<close>: \<open>pow(2,count)\<close> does not fit \<open>int\<close> (the conversion is undefined;
  the model of a run stops there).
  \<open>DivByZero\<close>: a \<open>%\<close> with zero divisor.  \<open>NullStream\<close>: \<open>fscanf\<close> on the
  \<open>NULL\<close> result of \<open>fopen\<close>.  \<open>InvalidRank k p\<close>: rank \<open>k\<close> names the peer \<open>p\<close>
  outside \<open>[0, comm_sz)\<close> in an MPI call.  \<open>Blocked k p\<close>: rank \<open>k\<close> waits in
  \<open>MPI_Recv\<close> for a message from rank \<open>p\<close>, which sends none to it.
\<close>

text \<open>
  Lines 112--116.
  \<^verbatim>\<open>baseChangeResult = log(comm_sz)/log(2); count = ceil(baseChangeResult);\<close>
  \<^verbatim>\<open>divisor = pow(2,count); core_difference = divisor/2;\<close>
  \<open>pow(2,count)\<close> is a power of two and exact in \<open>double\<close>; for negative \<open>count\<close> it is
  below 1 and converts to 0.
\<close>

definition Get_input_count :: "'d fpu \<Rightarrow> int \<Rightarrow> int" where
  "Get_input_count fp comm_sz =
     fceil fp (fdiv fp (flog fp (of_int_d fp comm_sz)) (flog fp (of_int_d fp 2)))"

definition pow2_int :: "int \<Rightarrow> failure + int" where
  "pow2_int count =
     (if count < 0 then Inr 0
      else if 2 ^ nat count \<le> INT_MAX then Inr (2 ^ nat count)
      else Inl IntOverflow)"

definition Get_input_setup :: "'d fpu \<Rightarrow> int \<Rightarrow> failure + (int \<times> int \<times> int)" where
  "Get_input_setup fp comm_sz =
     (let count = Get_input_count fp comm_sz in
      case pow2_int count of
        Inl e \<Rightarrow> Inl e
      | Inr divisor \<Rightarrow> Inr (count, divisor, c_div divisor 2))"

text \<open>
  The values of the loop variables \<open>(divisor, core_difference)\<close> at the start of each
  executed iteration of
  \<^verbatim>\<open>for (int i=0; i<count; i++) { ...; divisor /= 2; core_difference /= 2; }\<close>
\<close>

function loop_states :: "int \<Rightarrow> int \<Rightarrow> int \<Rightarrow> int \<Rightarrow> (int \<times> int) list" where
  "loop_states count i divisor core_difference =
     (if i < count then
        (divisor, core_difference) #
          loop_states count (i + 1) (c_div divisor 2) (c_div core_difference 2)
      else [])"
  by pat_completeness auto
termination
  by (relation "measure (\<lambda>(count, i, d, c). nat (count - i))") auto

declare loop_states.simps [simp del]

text \<open>
  The value \<open>divisor\<close> holds after \<open>divisor = pow(2,count)\<close>.  Where the power does
  not fit \<open>int\<close> the conversion is undefined in C; the conversion instruction of x86
  then yields the least \<open>int\<close>, and the program goes on with it.
\<close>

definition pow2_conv :: "int \<Rightarrow> int" where
  "pow2_conv count = (case pow2_int count of Inr divisor \<Rightarrow> divisor | Inl e \<Rightarrow> INT_MIN)"

text \<open>
  The iterations \<open>Get_input\<close> executes at a rank of a group of \<open>comm_sz\<close>: the loop
  variables of each, also after a conversion out of range.
\<close>

definition Get_input_iterations :: "'d fpu \<Rightarrow> int \<Rightarrow> (int \<times> int) list" where
  "Get_input_iterations fp comm_sz =
     (let count = Get_input_count fp comm_sz;
          divisor = pow2_conv count
      in loop_states count 0 divisor (c_div divisor 2))"

text \<open>
  The body of the loop at one rank.  Each branch issues three calls for \<open>a\<close>, \<open>b\<close> and
  \<open>n\<close> with the same peer, in the same order on both sides, so one action stands for the
  transfer of the triple.
  \<^verbatim>\<open>if (my_rank%divisor==0 && (my_rank+core_difference < comm_sz)) { MPI_Send x3 to my_rank+core_difference }\<close>
  \<^verbatim>\<open>else if (my_rank%core_difference==0) { MPI_Recv x3 from my_rank-core_difference }\<close>
\<close>

datatype action = Send int | Recv int | Idle

definition Get_input_body :: "int \<Rightarrow> int \<Rightarrow> int \<Rightarrow> int \<Rightarrow> failure + action" where
  "Get_input_body my_rank comm_sz divisor core_difference =
     (if divisor = 0 then Inl DivByZero
      else if c_mod my_rank divisor = 0 \<and> my_rank + core_difference < comm_sz
        then Inr (Send (my_rank + core_difference))
      else if core_difference = 0 then Inl DivByZero
      else if c_mod my_rank core_difference = 0
        then Inr (Recv (my_rank - core_difference))
      else Inr Idle)"

text \<open>
  The configuration \<open>(a, b, n)\<close> held by a rank: the contents of \<open>*a_p\<close>, \<open>*b_p\<close>,
  \<open>*n_p\<close>.  Before the broadcast the non-root ranks hold whatever their uninitialised
  variables contain.
\<close>

type_synonym 'd config = "'d \<times> 'd \<times> int"

text \<open>
  One iteration of the loop at all ranks, under the blocking rendezvous transport: a
  receive posted by rank \<open>k\<close> for rank \<open>p\<close> in this iteration completes with the values
  held by \<open>p\<close> exactly when \<open>p\<close> executes the send branch towards \<open>k\<close> in this iteration;
  otherwise \<open>k\<close> stays blocked.  A rank that sends or idles keeps its values.
\<close>

definition bcast_rank ::
  "int \<Rightarrow> int \<Rightarrow> int \<Rightarrow> 'd config list \<Rightarrow> int \<Rightarrow> failure + 'd config" where
  "bcast_rank comm_sz divisor core_difference cfgs k =
     (case Get_input_body k comm_sz divisor core_difference of
        Inl e \<Rightarrow> Inl e
      | Inr (Send dest) \<Rightarrow> Inr (cfgs ! nat k)
      | Inr Idle \<Rightarrow> Inr (cfgs ! nat k)
      | Inr (Recv src) \<Rightarrow>
          (if src < 0 \<or> comm_sz \<le> src then Inl (InvalidRank k src)
           else if Get_input_body src comm_sz divisor core_difference = Inr (Send k)
             then Inr (cfgs ! nat src)
           else Inl (Blocked k src)))"

fun collect :: "('e + 'a) list \<Rightarrow> 'e + 'a list" where
  "collect [] = Inr []"
| "collect (Inl e # rs) = Inl e"
| "collect (Inr x # rs) = (case collect rs of Inl e \<Rightarrow> Inl e | Inr xs \<Rightarrow> Inr (x # xs))"

definition bcast_step ::
  "int \<Rightarrow> int \<Rightarrow> int \<Rightarrow> 'd config list \<Rightarrow> failure + 'd config list" where
  "bcast_step comm_sz divisor core_difference cfgs =
     collect (map (bcast_rank comm_sz divisor core_difference cfgs) [0 .. comm_sz - 1])"

function bcast_loop ::
  "int \<Rightarrow> int \<Rightarrow> int \<Rightarrow> int \<Rightarrow> int \<Rightarrow> 'd config list \<Rightarrow> failure + 'd config list" where
  "bcast_loop comm_sz count i divisor core_difference cfgs =
     (if i < count then
        (case bcast_step comm_sz divisor core_difference cfgs of
           Inl e \<Rightarrow> Inl e
         | Inr cfgs' \<Rightarrow>
             bcast_loop comm_sz count (i + 1) (c_div divisor 2) (c_div core_difference 2) cfgs')
      else Inr cfgs)"
  by pat_completeness auto
termination
  by (relation "measure (\<lambda>(N, count, i, d, c, s). nat (count - i))") auto

declare bcast_loop.simps [simp del]

text \<open>The broadcast phase of \<open>Get_input\<close> (lines 112--116 and 130--146) at all ranks.\<close>

definition Get_input_bcast :: "'d fpu \<Rightarrow> int \<Rightarrow> 'd config list \<Rightarrow> failure + 'd config list" where
  "Get_input_bcast fp comm_sz cfgs =
     (case Get_input_setup fp comm_sz of
        Inl e \<Rightarrow> Inl e
      | Inr (count, divisor, core_difference) \<Rightarrow>
          bcast_loop comm_sz count 0 divisor core_difference cfgs)"

text \<open>
  Lines 119--127, the input at the root.  The file \<open>mpi_trap2-inputs.txt\<close> is either
  absent or holds a text of which \<open>fscanf(fp, "%lf %lf %d", a_p, b_p, n_p)\<close> converts the
  first 0, 1, 2 or 3 items; a variable whose conversion did not happen keeps its
  contents.  The results of \<open>fopen\<close> and \<open>fscanf\<close> are not tested.
\<close>

datatype 'd scanned = Scan0 | Scan1 'd | Scan2 'd 'd | Scan3 'd 'd int

datatype 'd input_file = NoFile | File "'d scanned"

datatype 'd printed =
    IAm int
  | InputValues 'd 'd int
  | EstimateN int
  | EstimateOf 'd 'd 'd

fun fscanf3 :: "'d scanned \<Rightarrow> 'd config \<Rightarrow> 'd config" where
  "fscanf3 Scan0 (a, b, n) = (a, b, n)"
| "fscanf3 (Scan1 x) (a, b, n) = (x, b, n)"
| "fscanf3 (Scan2 x y) (a, b, n) = (x, y, n)"
| "fscanf3 (Scan3 x y z) (a, b, n) = (x, y, z)"

definition Get_input_read ::
  "int \<Rightarrow> 'd input_file \<Rightarrow> 'd config \<Rightarrow> 'd printed list \<times> (failure + 'd config)" where
  "Get_input_read my_rank file cfg =
     (if my_rank = 0 then
        (case file of
           NoFile \<Rightarrow> ([IAm my_rank], Inl NullStream)
         | File s \<Rightarrow>
             (case fscanf3 s cfg of
                (a, b, n) \<Rightarrow> ([IAm my_rank, InputValues a b n], Inr (a, b, n))))
      else ([], Inr cfg))"

text \<open>
  \<open>Get_input\<close> at all ranks: every rank computes the loop variables, the root reads
  the input, then the loop runs.
\<close>

definition Get_input ::
  "'d fpu \<Rightarrow> int \<Rightarrow> 'd input_file \<Rightarrow> 'd config list \<Rightarrow> failure + 'd config list" where
  "Get_input fp comm_sz file init =
     (case Get_input_setup fp comm_sz of
        Inl e \<Rightarrow> Inl e
      | Inr (count, divisor, core_difference) \<Rightarrow>
          (case snd (Get_input_read 0 file (init ! 0)) of
             Inl e \<Rightarrow> Inl e
           | Inr cfg0 \<Rightarrow>
               bcast_loop comm_sz count 0 divisor core_difference (init [0 := cfg0])))"


section \<open>Reduction at the root, output, and the whole run\<close>

text \<open>
  Lines 72--74: \<^verbatim>\<open>if (my_rank != 0) MPI_Send(&local_int, 1, MPI_DOUBLE, 0, 0, MPI_COMM_WORLD);\<close>
  The result is the message a rank sends after its local computation: destination and
  value \<open>v\<close> of its \<open>local_int\<close>.
\<close>

definition main_send :: "int \<Rightarrow> 'd \<Rightarrow> (int \<times> 'd) option" where
  "main_send my_rank v = (if my_rank \<noteq> 0 then Some (0, v) else None)"

text \<open>
  \<open>MPI_Recv(&local_int, 1, MPI_DOUBLE, source, ...)\<close> at rank \<open>my_rank\<close>, where
  \<open>local_ints\<close> lists the local estimate of every rank: the receive completes with the
  value \<open>source\<close> sends to \<open>my_rank\<close>, and blocks if \<open>source\<close> sends nothing to it.
\<close>

definition main_recv :: "'d list \<Rightarrow> int \<Rightarrow> int \<Rightarrow> failure + 'd" where
  "main_recv local_ints my_rank source =
     (case main_send source (local_ints ! nat source) of
        None \<Rightarrow> Inl (Blocked my_rank source)
      | Some (dest, v) \<Rightarrow> if dest = my_rank then Inr v else Inl (Blocked my_rank source))"

text \<open>
  Lines 76--81 at rank 0:
  \<^verbatim>\<open>total_int = local_int;\<close>
  \<^verbatim>\<open>for (source = 1; source < comm_sz; source++) { MPI_Recv(&local_int, ..., source, ...); total_int += local_int; }\<close>
\<close>

function reduce_loop :: "'d fpu \<Rightarrow> int \<Rightarrow> 'd list \<Rightarrow> int \<Rightarrow> 'd \<Rightarrow> failure + 'd" where
  "reduce_loop fp comm_sz local_ints source total_int =
     (if source < comm_sz then
        (case main_recv local_ints 0 source of
           Inl e \<Rightarrow> Inl e
         | Inr received \<Rightarrow>
             reduce_loop fp comm_sz local_ints (source + 1) (fadd fp total_int received))
      else Inr total_int)"
  by pat_completeness auto
termination
  by (relation "measure (\<lambda>(fp, N, ls, source, t). nat (N - source))") auto

declare reduce_loop.simps [simp del]

definition main_reduce :: "'d fpu \<Rightarrow> int \<Rightarrow> 'd list \<Rightarrow> failure + 'd" where
  "main_reduce fp comm_sz local_ints = reduce_loop fp comm_sz local_ints 1 (local_ints ! 0)"

text \<open>
  Lines 85--89:
  \<^verbatim>\<open>if (my_rank == 0) { printf("With n = %d trapezoids, ...", n); printf("of the integral ...", a, b, total_int); }\<close>
\<close>

definition main_print :: "int \<Rightarrow> 'd config \<Rightarrow> 'd \<Rightarrow> 'd printed list" where
  "main_print my_rank cfg total_int =
     (case cfg of (a, b, n) \<Rightarrow>
        if my_rank = 0 then [EstimateN n, EstimateOf a b total_int] else [])"

text \<open>
  A completed run of the program on \<open>comm_sz\<close> ranks: the configuration and the local
  estimate of every rank, \<open>total_int\<close> at rank 0, and what every rank printed.  \<open>init\<close>
  holds the initial contents of \<open>a\<close>, \<open>b\<close>, \<open>n\<close> at every rank.
\<close>

record 'd run =
  configs :: "'d config list"
  estimates :: "'d list"
  total :: 'd
  printed_by :: "'d printed list list"

definition mpi_trap2 ::
  "'d fpu \<Rightarrow> int \<Rightarrow> 'd input_file \<Rightarrow> 'd config list \<Rightarrow> failure + 'd run" where
  "mpi_trap2 fp comm_sz file init =
     (case Get_input fp comm_sz file init of
        Inl e \<Rightarrow> Inl e
      | Inr cfgs \<Rightarrow>
          (let ints = map (\<lambda>k. case cfgs ! nat k of (a, b, n) \<Rightarrow>
                              local_int (main_local fp k comm_sz a b n)) [0 .. comm_sz - 1]
           in case main_reduce fp comm_sz ints of
                Inl e \<Rightarrow> Inl e
              | Inr total_int \<Rightarrow>
                  Inr \<lparr> configs = cfgs, estimates = ints, total = total_int,
                        printed_by =
                          map (\<lambda>k. fst (Get_input_read k file (init ! nat k)) @
                                    main_print k (cfgs ! nat k) total_int)
                            [0 .. comm_sz - 1] \<rparr>))"

text \<open>The invariant of the broadcast: every rank that is a multiple of \<open>D\<close> holds \<open>c0\<close>.\<close>

definition informed :: "int \<Rightarrow> int \<Rightarrow> 'd config \<Rightarrow> 'd config list \<Rightarrow> bool" where
  "informed N D c0 cfgs \<longleftrightarrow> (\<forall>k. 0 \<le> k \<and> k < N \<and> k mod D = 0 \<longrightarrow> cfgs ! nat k = c0)"


section \<open>IEEE binary64 division\<close>

text \<open>
  Round to nearest, ties to even, with a 53-bit significand: a double is the real number
  it denotes.  Overflow, subnormal numbers, infinities and NaN are outside this model;
  it is used for one quotient of two normal numbers.  libm's \<open>log\<close> is a parameter.
\<close>

definition round_even :: "real \<Rightarrow> int" where
  "round_even x =
     (let n = \<lfloor>x\<rfloor> in
      if x - of_int n < 1/2 then n
      else if 1/2 < x - of_int n then n + 1
      else if even n then n else n + 1)"

definition round64 :: "real \<Rightarrow> real" where
  "round64 x =
     (if x = 0 then 0
      else (let e = \<lfloor>log 2 \<bar>x\<bar>\<rfloor> - 52
            in of_int (round_even (x / 2 powi e)) * 2 powi e))"

definition binary64 :: "(real \<Rightarrow> real) \<Rightarrow> real fpu" where
  "binary64 libm_log =
     \<lparr> fadd = (\<lambda>x y. round64 (x + y)), fsub = (\<lambda>x y. round64 (x - y)),
       fmul = (\<lambda>x y. round64 (x * y)), fdiv = (\<lambda>x y. round64 (x / y)),
       of_int_d = (\<lambda>k. round64 (of_int k)), flog = libm_log, fceil = ceiling \<rparr>"


section \<open>Properties of Trap\<close>

lemma Trap_loop_fold:
  "Trap_loop fp l c bl i (est, evs) =
     (foldl (fadd fp) est (map (f fp) (map (\<lambda>i. fadd fp l (fmul fp (of_int_d fp i) bl)) [i .. c - 1])),
      evs @ map (\<lambda>i. fadd fp l (fmul fp (of_int_d fp i) bl)) [i .. c - 1])"
proof (induction fp l c bl i "(est, evs)" arbitrary: est evs rule: Trap_loop.induct)
  case (1 fp l c bl i est evs)
  show ?case
  proof (cases "i \<le> c - 1")
    case True
    then have up: "[i .. c - 1] = i # [i + 1 .. c - 1]"
      by (simp add: upto_rec1)
    from True 1 show ?thesis
      by (subst Trap_loop.simps) (simp add: f_call_def up Let_def)
  next
    case False
    then show ?thesis
      by (subst Trap_loop.simps) simp
  qed
qed

lemma Trap_run_eq:
  "Trap_run fp l r c bl =
     (fmul fp (foldl (fadd fp) (fdiv fp (fadd fp (f fp l) (f fp r)) (of_int_d fp 2))
                 (map (f fp) (interior fp l c bl))) bl,
      [l, r] @ interior fp l c bl)"
  by (simp add: Trap_run_def f_call_def Trap_loop_fold interior_def)


lemma c_div_trunc_quot:
  "1 \<le> N \<Longrightarrow> c_div n N = trunc_quot n N"
  by (cases "n = 0") (auto simp: c_div_def trunc_quot_def sgn_if)



text \<open>
  Claim C4.  For every rank of a group of size \<open>comm_sz \<ge> 1\<close>, \<open>main\<close> computes
  \<open>local_n = n / comm_sz\<close> rounded toward zero, \<open>h = (b - a) / n\<close>,
  \<open>local_a = a + my_rank * local_n * h\<close> and \<open>local_b = local_a + local_n * h\<close>: the
  specification's \<open>Partition\<close>.  The values are a function of \<open>(my_rank, comm_sz, a, b, n)\<close>
  alone, and \<open>h\<close> and \<open>local_n\<close> do not depend on the rank.
\<close>

theorem main_local_partition:
  assumes "1 \<le> comm_sz"
  shows "(local_a (main_local fp my_rank comm_sz a b n),
          local_b (main_local fp my_rank comm_sz a b n),
          local_n (main_local fp my_rank comm_sz a b n)) = Partition fp my_rank comm_sz a b n
       \<and> local_n (main_local fp my_rank comm_sz a b n) = trunc_quot n comm_sz
       \<and> h (main_local fp my_rank comm_sz a b n) = fdiv fp (fsub fp b a) (of_int_d fp n)
       \<and> local_a (main_local fp my_rank comm_sz a b n) =
           fadd fp a (fmul fp (of_int_d fp (my_rank * trunc_quot n comm_sz))
                        (fdiv fp (fsub fp b a) (of_int_d fp n)))
       \<and> local_b (main_local fp my_rank comm_sz a b n) =
           fadd fp (local_a (main_local fp my_rank comm_sz a b n))
             (fmul fp (of_int_d fp (trunc_quot n comm_sz)) (fdiv fp (fsub fp b a) (of_int_d fp n)))
       \<and> h (main_local fp my_rank comm_sz a b n) = h (main_local fp other_rank comm_sz a b n)
       \<and> local_n (main_local fp my_rank comm_sz a b n) =
           local_n (main_local fp other_rank comm_sz a b n)"
  using assms by (simp add: main_local_def Partition_def Let_def c_div_trunc_quot)

theorem main_local_partition_witness:
  "(1::int) \<le> 4
   \<and> (local_a (main_local exact_fpu 1 4 0 1 (-7)),
      local_b (main_local exact_fpu 1 4 0 1 (-7)),
      local_n (main_local exact_fpu 1 4 0 1 (-7))) = (1/7, 2/7, -1)"
  using main_local_partition [of 4 exact_fpu 1 0 1 "-7" 1]
  by (simp add: Partition_def trunc_quot_def exact_fpu_def Let_def)


section \<open>Integer facts\<close>

lemma c_mod_nonneg: "0 \<le> k \<Longrightarrow> 0 < d \<Longrightarrow> c_mod k d = k mod d"
  by (cases "k = 0") (simp_all add: c_mod_def sgn_if)

lemma c_div_pow2: "c_div (2 ^ m) 2 = 2 ^ m div 2"
  by (simp add: c_div_def)

lemma upto_0_Suc:
  "[0 .. 0] = [0]" "[0 .. 1] = [0, 1]" "[0 .. 2] = [0, 1, 2]" "[0 .. 3] = [0, 1, 2, 3]"
  by (simp_all add: upto_rec1)

lemma dvd_room:
  fixes D N k :: int
  assumes "D dvd N" "D dvd k" "k < N"
  shows "k + D \<le> N"
proof -
  from assms have "D dvd N - k" "0 < N - k" by simp_all
  then have "D \<le> N - k" by (rule zdvd_imp_le)
  then show ?thesis by simp
qed

lemma odd_multiple:
  fixes cd k :: int
  assumes "0 < cd" "0 \<le> k" "k mod cd = 0" "k mod (2 * cd) \<noteq> 0"
  shows "cd \<le> k" and "(k - cd) mod (2 * cd) = 0"
proof -
  from assms(3) obtain q where q: "k = cd * q" by (auto simp: mod_eq_0_iff_dvd)
  with assms(1,2) have q0: "0 \<le> q"
    by (simp add: zero_le_mult_iff)
  from assms(4) q have "odd q" by auto
  with q0 have "1 \<le> q" by (cases "q = 0") auto
  with assms(1) q show "cd \<le> k" by simp
  from \<open>odd q\<close> obtain r where "q = 2 * r + 1" by (auto elim: oddE)
  with q have "k - cd = 2 * cd * r" by (simp add: algebra_simps)
  then show "(k - cd) mod (2 * cd) = 0" by simp
qed


section \<open>The iteration count in exact arithmetic\<close>

text \<open>
  With the logarithm and the quotient of the reals, \<open>count\<close> is the least \<open>c\<close> with
  \<open>comm_sz \<le> 2 ^ c\<close>.
\<close>

lemma exact_count:
  assumes "1 \<le> N" and "N \<le> 2 ^ c" and "c = 0 \<or> 2 ^ (c - 1) < N"
  shows "Get_input_count exact_fpu N = int c"
proof -
  have eq: "Get_input_count exact_fpu N = \<lceil>log 2 (real (nat N))\<rceil>"
    using assms(1) by (simp add: Get_input_count_def exact_fpu_def log_def)
  have up: "log 2 (real (nat N)) \<le> real c"
    using assms(1,2) by (intro log2_of_power_le) (simp_all add: nat_le_iff)
  have lo: "real c - 1 < log 2 (real (nat N))"
  proof (cases "c = 0")
    case True
    with assms(1,2) have "N = 1" by simp
    with True show ?thesis by simp
  next
    case False
    with assms(3) have "2 ^ (c - 1) < nat N"
      by (simp add: nat_less_iff flip: of_nat_power)
    from less_log2_of_power [OF this] False show ?thesis
      by (simp add: of_nat_diff)
  qed
  from up lo show ?thesis
    unfolding eq by (simp add: ceiling_eq_iff)
qed


section \<open>The loop variables\<close>

lemma loop_states_pow2:
  "nat (count - i) = m \<Longrightarrow>
   loop_states count i (2 ^ m) (2 ^ m div 2) =
     map (\<lambda>j. (2 ^ (m - j), 2 ^ (m - j) div 2)) [0..<m]"
proof (induction m arbitrary: i)
  case 0
  then show ?case by (simp add: loop_states.simps)
next
  case (Suc m)
  then have lt: "i < count" and m: "nat (count - (i + 1)) = m" by simp_all
  have "c_div (2 ^ Suc m div 2) 2 = (2 ^ m div 2 :: int)"
    using c_div_pow2 [of m] by simp
  moreover have "c_div (2 ^ Suc m) 2 = (2 ^ m :: int)"
    using c_div_pow2 [of "Suc m"] by simp
  ultimately show ?case
    using lt Suc.IH [OF m]
    by (subst loop_states.simps) (simp add: map_upt_Suc del: upt_Suc)
qed

lemma setup_cases:
  assumes "Get_input_setup fp comm_sz = Inr (count, divisor, cd)"
  shows "count = Get_input_count fp comm_sz"
    and "count < 0 \<and> divisor = 0 \<and> cd = 0
         \<or> 0 \<le> count \<and> divisor = 2 ^ nat count \<and> cd = 2 ^ nat count div 2
            \<and> 2 ^ nat count \<le> INT_MAX"
  using assms
  by (auto simp: Get_input_setup_def Let_def pow2_int_def c_div_pow2 c_div_def split: if_splits)

lemma setup_loop_states:
  assumes "Get_input_setup fp comm_sz = Inr (count, divisor, cd)"
  shows "loop_states count 0 divisor cd =
           map (\<lambda>j. (2 ^ (nat count - j), 2 ^ (nat count - j) div 2)) [0..<nat count]"
proof (cases "count < 0")
  case True
  then show ?thesis by (simp add: loop_states.simps)
next
  case False
  with setup_cases(2) [OF assms] loop_states_pow2 [of count 0 "nat count"]
  show ?thesis by simp
qed


lemma exact_setup:
  assumes "1 \<le> N" and "N \<le> 2 ^ c" and "c = 0 \<or> 2 ^ (c - 1) < N" and "(2::int) ^ c \<le> INT_MAX"
  shows "Get_input_setup exact_fpu N = Inr (int c, 2 ^ c, 2 ^ c div 2)"
  using exact_count [OF assms(1-3)] assms(4)
  by (simp add: Get_input_setup_def pow2_int_def c_div_pow2)

lemma iterations_setup:
  assumes "Get_input_setup fp comm_sz = Inr (count, divisor, cd)"
  shows "Get_input_iterations fp comm_sz = loop_states count 0 divisor cd"
  using assms
  by (auto simp: Get_input_iterations_def Get_input_setup_def pow2_conv_def Let_def
      split: sum.splits)

lemma iterations_eq:
  assumes "Get_input_setup fp comm_sz = Inr (count, divisor, cd)"
  shows "Get_input_iterations fp comm_sz =
           map (\<lambda>j. (2 ^ (nat count - j), 2 ^ (nat count - j) div 2)) [0..<nat count]"
  using iterations_setup [OF assms] setup_loop_states [OF assms] by simp

lemma exact_count_ceiling:
  assumes "1 \<le> N"
  shows "0 \<le> Get_input_count exact_fpu N"
    and "N \<le> 2 ^ nat (Get_input_count exact_fpu N)"
    and "2 ^ nat (Get_input_count exact_fpu N) < 2 * N"
proof -
  define x where "x = log 2 (real_of_int N)"
  define c where "c = nat \<lceil>x\<rceil>"
  from assms have x0: "0 \<le> x" by (simp add: x_def)
  then have cx: "real c = of_int \<lceil>x\<rceil>" by (simp add: c_def)
  have eq: "Get_input_count exact_fpu N = \<lceil>x\<rceil>"
    by (simp add: Get_input_count_def exact_fpu_def log_def x_def)
  from x0 show "0 \<le> Get_input_count exact_fpu N" by (simp add: eq)
  have N: "real_of_int N = 2 powr x"
    using assms by (simp add: x_def)
  have "2 powr x \<le> 2 powr (real c)"
    by (simp add: cx)
  then have "real_of_int N \<le> 2 ^ c"
    by (simp add: N powr_realpow)
  then have "real_of_int N \<le> real_of_int (2 ^ c)" by simp
  then have "N \<le> 2 ^ c" by (simp only: of_int_le_iff)
  then show "N \<le> 2 ^ nat (Get_input_count exact_fpu N)"
    by (simp add: eq c_def)
  have "real c < x + 1" unfolding cx by linarith
  then have "2 powr (real c) < 2 powr (x + 1)" by simp
  then have "2 ^ c < 2 * real_of_int N"
    by (simp add: N powr_realpow powr_add)
  then have "real_of_int (2 ^ c) < real_of_int (2 * N)" by simp
  then have "2 ^ c < 2 * N" by (simp only: of_int_less_iff)
  then show "2 ^ nat (Get_input_count exact_fpu N) < 2 * N"
    by (simp add: eq c_def)
qed

text \<open>
  The values of \<open>core_difference\<close> in the iterations of one run are pairwise different.
  A rank \<open>s\<close> sends to \<open>s + core_difference\<close> only, so a message from \<open>s\<close> to \<open>k\<close> can
  be sent in one iteration only, the one with \<open>core_difference = k - s\<close>: a receive is
  matched by a send of its own iteration or not at all.
\<close>

lemma core_differences_distinct:
  assumes "Get_input_setup fp comm_sz = Inr (count, divisor, cd)"
  shows "distinct (map snd (Get_input_iterations fp comm_sz))"
proof -
  have "inj_on (\<lambda>j. (2::int) ^ (nat count - j) div 2) {0..<nat count}"
  proof (rule inj_onI)
    fix i j assume i: "i \<in> {0..<nat count}" and j: "j \<in> {0..<nat count}"
      and eq: "(2::int) ^ (nat count - i) div 2 = 2 ^ (nat count - j) div 2"
    from i obtain a where a: "nat count - i = Suc a" by (cases "nat count - i") auto
    from j obtain b where b: "nat count - j = Suc b" by (cases "nat count - j") auto
    from eq a b have "a = b" by simp
    with a b i j show "i = j" by simp
  qed
  then have "distinct (map (\<lambda>j. (2::int) ^ (nat count - j) div 2) [0..<nat count])"
    by (simp add: distinct_map)
  then show ?thesis
    by (simp add: iterations_eq [OF assms] comp_def)
qed






text \<open>Rounding to \<open>double\<close> at the numbers the count is computed from.\<close>

lemma floor_log2:
  fixes x :: real
  assumes "2 ^ n \<le> x" "x < 2 ^ Suc n"
  shows "\<lfloor>log 2 x\<rfloor> = int n"
proof -
  have "(0::real) < 2 ^ n" by simp
  with assms(1) have x: "0 < x" by linarith
  have "\<lfloor>log 2 x\<rfloor> = int n \<longleftrightarrow> 2 powr (int n) \<le> x \<and> x < 2 powr (int n + 1)"
    using x by (intro floor_log_eq_powr_iff) simp_all
  moreover have "2 powr (real_of_int (int n)) = (2::real) ^ n"
    by (simp add: powr_realpow)
  moreover have "2 powr (real_of_int (int n + 1)) = (2::real) ^ Suc n"
    using powr_realpow [of 2 "Suc n"] by (simp add: add.commute)
  ultimately show ?thesis using assms by simp
qed

lemma round64_2: "round64 2 = 2"
proof -
  have "\<lfloor>log 2 \<bar>2::real\<bar>\<rfloor> = int 1"
    by (intro floor_log2) simp_all
  then show ?thesis
    by (simp add: round64_def round_even_def power_int_minus)
qed

lemma round64_2_29: "round64 536870912 = 536870912"
proof -
  have "\<lfloor>log 2 \<bar>536870912::real\<bar>\<rfloor> = int 29"
    by (intro floor_log2) simp_all
  then show ?thesis
    by (simp add: round64_def round_even_def power_int_minus)
qed

lemma round64_quotient:
  "round64 ((5658004008649857 / 2 ^ 48) / (6243314768165359 / 2 ^ 53)) = 29 + 1 / 2 ^ 48"
proof -
  have "\<lfloor>log 2 \<bar>(5658004008649857 / 2 ^ 48) / (6243314768165359 / 2 ^ 53) :: real\<bar>\<rfloor> = int 4"
    by (intro floor_log2) (simp_all add: field_simps)
  moreover have
    "\<lfloor>181056128276795424 / 6243314768165359 * (281474976710656::real)\<rfloor> = 8162774324609024"
    by (simp add: floor_eq_iff field_simps)
  ultimately show ?thesis
    by (simp add: round64_def round_even_def power_int_minus Let_def)
qed



lemma exact_count_le_31:
  assumes "1 \<le> N" "N \<le> INT_MAX"
  shows "Get_input_count exact_fpu N \<le> 31"
proof -
  from exact_count_ceiling [OF assms(1)] assms(2)
  have "0 \<le> Get_input_count exact_fpu N"
    and lt: "(2::int) ^ nat (Get_input_count exact_fpu N) < 2 ^ 32"
    by (simp_all add: INT_MAX_def)
  have "nat (Get_input_count exact_fpu N) < 32"
    by (rule power_less_imp_less_exp [of 2, OF _ lt]) simp
  then show ?thesis by simp
qed





section \<open>One iteration of the broadcast\<close>

lemma collect_Inr:
  "collect rs = Inr xs \<Longrightarrow> length xs = length rs \<and> (\<forall>j<length rs. rs ! j = Inr (xs ! j))"
proof (induction rs arbitrary: xs)
  case Nil
  then show ?case by simp
next
  case (Cons r rs)
  show ?case
  proof (cases r)
    case (Inl e)
    with Cons.prems show ?thesis by simp
  next
    case (Inr x)
    with Cons.prems obtain ys where ys: "collect rs = Inr ys" and xs: "xs = x # ys"
      by (auto split: sum.splits)
    from Cons.IH [OF ys] Inr xs show ?thesis
      by (auto simp: nth_Cons split: nat.splits)
  qed
qed

lemma collect_total:
  "(\<And>r. r \<in> set rs \<Longrightarrow> \<exists>x. r = Inr x) \<Longrightarrow> \<exists>xs. collect rs = Inr xs"
proof (induction rs)
  case Nil
  then show ?case by simp
next
  case (Cons r rs)
  then obtain x where "r = Inr x" by auto
  moreover from Cons obtain xs where "collect rs = Inr xs" by auto
  ultimately show ?case by simp
qed

lemma bcast_step_Inr:
  assumes "bcast_step N D cd cfgs = Inr cfgs'"
  shows "length cfgs' = nat N"
    and "0 \<le> k \<Longrightarrow> k < N \<Longrightarrow> bcast_rank N D cd cfgs k = Inr (cfgs' ! nat k)"
proof -
  let ?rs = "map (bcast_rank N D cd cfgs) [0 .. N - 1]"
  from assms have c: "collect ?rs = Inr cfgs'"
    by (simp add: bcast_step_def)
  from collect_Inr [OF c] have len: "length cfgs' = length ?rs"
    and nth: "\<And>j. j < length ?rs \<Longrightarrow> ?rs ! j = Inr (cfgs' ! j)"
    by auto
  from len show "length cfgs' = nat N" by simp
  assume k: "0 \<le> k" "k < N"
  then have "nat k < length ?rs" by simp
  from nth [OF this] k show "bcast_rank N D cd cfgs k = Inr (cfgs' ! nat k)"
    by simp
qed

text \<open>
  The ranks that execute the receive branch, in an iteration with
  \<open>divisor = 2 * core_difference\<close>: the multiples of \<open>core_difference\<close> that are not
  multiples of \<open>divisor\<close>, and also the multiples of \<open>divisor\<close> whose partner
  \<open>k + core_difference\<close> does not exist.
\<close>

lemma body_Recv_iff:
  assumes "0 < cd" "D = 2 * cd" "0 \<le> k"
  shows "Get_input_body k N D cd = Inr (Recv (k - cd)) \<longleftrightarrow>
           k mod cd = 0 \<and> (k mod D \<noteq> 0 \<or> N \<le> k + cd)"
  using assms by (auto simp: Get_input_body_def c_mod_nonneg)

lemma body_Send_iff:
  assumes "0 < cd" "D = 2 * cd" "0 \<le> k"
  shows "Get_input_body k N D cd = Inr (Send j) \<longleftrightarrow>
           k mod D = 0 \<and> k + cd < N \<and> j = k + cd"
  using assms by (auto simp: Get_input_body_def c_mod_nonneg)

text \<open>
  Every send is awaited: the destination of a sender executes the receive branch with
  the sender as source.  A rank is the destination of at most one sender.
\<close>

lemma send_is_received:
  assumes "0 < cd" "D = 2 * cd" "0 \<le> k"
    and "Get_input_body k N D cd = Inr (Send j)"
  shows "Get_input_body j N D cd = Inr (Recv k)"
proof -
  from body_Send_iff [OF assms(1-3)] assms(4)
  have k: "k mod D = 0" "k + cd < N" "j = k + cd" by simp_all
  from k(1) assms(2) obtain q where q: "k = 2 * cd * q" by (auto simp: mod_eq_0_iff_dvd)
  have "j mod cd = 0" using k(3) q by simp
  moreover have "j mod D = cd"
  proof -
    have "j = cd + D * q" using k(3) q assms(2) by simp
    then have "j mod D = cd mod D" by simp
    also have "\<dots> = cd" using assms(1,2) by simp
    finally show ?thesis .
  qed
  ultimately show ?thesis
    using body_Recv_iff [of cd D j N] assms(1-3) k(3) by simp
qed

lemma one_sender:
  assumes "0 < cd" "D = 2 * cd" "0 \<le> k" "0 \<le> k'"
    and "Get_input_body k N D cd = Inr (Send j)"
    and "Get_input_body k' N D cd = Inr (Send j)"
  shows "k = k'"
  using body_Send_iff [OF assms(1,2,3)] body_Send_iff [OF assms(1,2,4)] assms(5,6) by simp

text \<open>
  Claim C2 at \<open>comm_sz = 3\<close>.  The loop runs with \<open>(divisor, core_difference) = (4, 2)\<close>
  and then \<open>(2, 1)\<close>.  In the second iteration rank 2 is a multiple of \<open>divisor\<close>, fails
  \<open>my_rank + core_difference < comm_sz\<close> and executes the receive branch with source
  rank 1; rank 1 idles in the first iteration and receives in the second, and its only
  send in the program, that of its local estimate, goes to rank 0: it never sends to
  rank 2.
\<close>

theorem receive_branch_at_3:
  "Get_input_setup exact_fpu 3 = Inr (2, 4, 2)
   \<and> loop_states 2 0 4 2 = [(4, 2), (2, 1)]
   \<and> c_mod 2 2 = 0
   \<and> Get_input_body 2 3 2 1 = Inr (Recv 1)
   \<and> Get_input_body 1 3 4 2 = Inr Idle
   \<and> Get_input_body 1 3 2 1 = Inr (Recv 0)
   \<and> main_send 1 v = Some (0, v)"
  using exact_setup [of 3 2]
  by (simp add: INT_MAX_def loop_states.simps Get_input_body_def c_mod_def c_div_def
      main_send_def)


section \<open>Correctness of the broadcast from rank 0\<close>

lemma bcast_step_informed:
  assumes step: "bcast_step N D cd cfgs = Inr cfgs'"
    and cd: "0 < cd" and D: "D = 2 * cd"
    and inf: "informed N D c0 cfgs"
  shows "informed N cd c0 cfgs'"
  unfolding informed_def
proof (intro allI impI)
  fix k assume k: "0 \<le> k \<and> k < N \<and> k mod cd = 0"
  then have r: "bcast_rank N D cd cfgs k = Inr (cfgs' ! nat k)"
    using bcast_step_Inr(2) [OF step] by simp
  from cd D have D0: "0 < D" by simp
  show "cfgs' ! nat k = c0"
  proof (cases "k mod D = 0 \<and> k + cd < N")
    case True
    with k D0 cd have "Get_input_body k N D cd = Inr (Send (k + cd))"
      by (simp add: Get_input_body_def c_mod_nonneg)
    with r have "cfgs' ! nat k = cfgs ! nat k"
      by (simp add: bcast_rank_def)
    with inf k True show ?thesis by (simp add: informed_def)
  next
    case False
    with k D0 cd have b: "Get_input_body k N D cd = Inr (Recv (k - cd))"
      by (auto simp: Get_input_body_def c_mod_nonneg)
    with r have src: "0 \<le> k - cd" "k - cd < N"
      and sender: "Get_input_body (k - cd) N D cd = Inr (Send k)"
      and val: "cfgs' ! nat k = cfgs ! nat (k - cd)"
      by (auto simp: bcast_rank_def split: if_splits)
    from sender src D0 cd have "(k - cd) mod D = 0"
      by (auto simp: Get_input_body_def c_mod_nonneg split: if_splits)
    with inf src val show ?thesis by (simp add: informed_def)
  qed
qed

lemma bcast_loop_unfold:
  assumes "i < count" and "bcast_loop N count i D cd cfgs = Inr cfgs'"
  obtains mid where "bcast_step N D cd cfgs = Inr mid"
    and "bcast_loop N count (i + 1) (c_div D 2) (c_div cd 2) mid = Inr cfgs'"
  using assms by (subst (asm) bcast_loop.simps) (auto split: sum.splits)

lemma bcast_loop_informed:
  "bcast_loop N count i D cd cfgs = Inr cfgs' \<Longrightarrow> i \<le> count \<Longrightarrow>
   D = 2 ^ nat (count - i) \<Longrightarrow> cd = D div 2 \<Longrightarrow> informed N D c0 cfgs \<Longrightarrow>
   informed N 1 c0 cfgs'"
proof (induction N count i D cd cfgs rule: bcast_loop.induct)
  case (1 N count i D cd cfgs)
  show ?case
  proof (cases "i < count")
    case False
    with "1.prems" show ?thesis
      by (simp add: bcast_loop.simps)
  next
    case True
    then obtain m where m: "nat (count - i) = Suc m"
      by (cases "nat (count - i)") auto
    with True have m': "nat (count - (i + 1)) = m" by simp
    from m "1.prems" have D: "D = 2 * 2 ^ m" and cd: "cd = 2 ^ m" by simp_all
    from bcast_loop_unfold [OF True "1.prems"(1)] obtain mid where
      step: "bcast_step N D cd cfgs = Inr mid" and
      rest: "bcast_loop N count (i + 1) (c_div D 2) (c_div cd 2) mid = Inr cfgs'"
      by blast
    have inf: "informed N cd c0 mid"
      using bcast_step_informed [OF step _ _ "1.prems"(5)] D cd by simp
    have dD: "c_div D 2 = cd"
      using D cd c_div_pow2 [of "Suc m"] by simp
    have dcd: "c_div cd 2 = cd div 2"
      using cd c_div_pow2 [of m] by simp
    show ?thesis
      using "1.IH" [OF True step rest] True inf dD dcd cd m' by simp
  qed
qed

lemma informed_all:
  "informed N 1 c0 cfgs \<Longrightarrow> 0 \<le> k \<Longrightarrow> k < N \<Longrightarrow> cfgs ! nat k = c0"
  by (simp add: informed_def)

lemma informed_init:
  "N \<le> D \<Longrightarrow> informed N D (cfgs ! 0) cfgs"
proof -
  have "k = 0" if "0 \<le> k" "k < N" "k mod D = 0" "N \<le> D" for k
    using that mod_pos_pos_trivial [of k D] by simp
  then show "N \<le> D \<Longrightarrow> informed N D (cfgs ! 0) cfgs"
    unfolding informed_def by (metis nat_zero_as_int nat_0)
qed

lemma Get_input_bcast_partial:
  assumes run: "Get_input_bcast fp comm_sz cfgs = Inr cfgs'"
    and cnt: "comm_sz \<le> 2 ^ nat (Get_input_count fp comm_sz)"
    and k: "0 \<le> k" "k < comm_sz"
  shows "cfgs' ! nat k = cfgs ! 0"
proof -
  define count where "count = Get_input_count fp comm_sz"
  show ?thesis
  proof (cases "count \<le> 0")
    case True
    with cnt k have "k = 0" by (simp add: count_def)
    moreover from run True have "cfgs' = cfgs"
      by (auto simp: Get_input_bcast_def Get_input_setup_def Let_def count_def bcast_loop.simps
          split: sum.splits)
    ultimately show ?thesis by simp
  next
    case False
    with run have loop:
      "bcast_loop comm_sz count 0 (2 ^ nat count) (c_div (2 ^ nat count) 2) cfgs = Inr cfgs'"
      by (auto simp: Get_input_bcast_def Get_input_setup_def Let_def count_def pow2_int_def
          split: sum.splits if_splits)
    have "informed comm_sz (2 ^ nat count) (cfgs ! 0) cfgs"
      using cnt by (intro informed_init) (simp add: count_def)
    from bcast_loop_informed [OF loop _ _ _ this] False
    have "informed comm_sz 1 (cfgs ! 0) cfgs'"
      by (simp add: c_div_pow2)
    from informed_all [OF this k] show ?thesis .
  qed
qed

text \<open>When \<open>comm_sz\<close> is a multiple of \<open>divisor\<close>, no rank fails or blocks in the iteration.\<close>

lemma bcast_rank_pow2:
  assumes cd: "0 < cd" and D: "D = 2 * cd" and dvd: "D dvd N" and k: "0 \<le> k" "k < N"
  shows "bcast_rank N D cd cfgs k =
           Inr (cfgs ! nat (if k mod cd = 0 \<and> k mod D \<noteq> 0 then k - cd else k))"
proof (cases "k mod D = 0")
  case True
  with dvd k(2) have "k + D \<le> N" by (intro dvd_room) auto
  with cd D have "k + cd < N" by simp
  with True k cd D show ?thesis
    by (simp add: bcast_rank_def Get_input_body_def c_mod_nonneg)
next
  case False
  show ?thesis
  proof (cases "k mod cd = 0")
    case c0: True
    from odd_multiple [OF cd k(1) c0] False D
    have src: "cd \<le> k" "(k - cd) mod D = 0" by simp_all
    with k cd D have "Get_input_body (k - cd) N D cd = Inr (Send k)"
      by (simp add: Get_input_body_def c_mod_nonneg)
    with False c0 k cd D src show ?thesis
      by (simp add: bcast_rank_def Get_input_body_def c_mod_nonneg)
  next
    case c1: False
    with False k cd D show ?thesis
      by (simp add: bcast_rank_def Get_input_body_def c_mod_nonneg)
  qed
qed

lemma bcast_step_pow2:
  assumes "0 < cd" "D = 2 * cd" "D dvd N"
  shows "\<exists>mid. bcast_step N D cd cfgs = Inr mid"
  unfolding bcast_step_def
proof (rule collect_total)
  fix r assume "r \<in> set (map (bcast_rank N D cd cfgs) [0 .. N - 1])"
  then obtain k where "0 \<le> k" "k < N" "r = bcast_rank N D cd cfgs k" by auto
  with bcast_rank_pow2 [OF assms, of k cfgs] show "\<exists>x. r = Inr x" by blast
qed

lemma bcast_loop_pow2:
  "i \<le> count \<Longrightarrow> D = 2 ^ nat (count - i) \<Longrightarrow> cd = D div 2 \<Longrightarrow> D dvd N \<Longrightarrow>
   \<exists>cfgs'. bcast_loop N count i D cd cfgs = Inr cfgs'"
proof (induction N count i D cd cfgs rule: bcast_loop.induct)
  case (1 N count i D cd cfgs)
  show ?case
  proof (cases "i < count")
    case False
    then show ?thesis by (simp add: bcast_loop.simps)
  next
    case True
    then obtain m where m: "nat (count - i) = Suc m"
      by (cases "nat (count - i)") auto
    with True have m': "nat (count - (i + 1)) = m" by simp
    from m "1.prems" have D: "D = 2 * 2 ^ m" and cd: "cd = 2 ^ m" by simp_all
    from bcast_step_pow2 [of cd D N cfgs] D cd "1.prems"(4)
    obtain mid where step: "bcast_step N D cd cfgs = Inr mid" by auto
    have dD: "c_div D 2 = cd"
      using D cd c_div_pow2 [of "Suc m"] by simp
    have dcd: "c_div cd 2 = cd div 2"
      using cd c_div_pow2 [of m] by simp
    have "cd dvd N"
      using "1.prems"(4) D cd by (metis dvd_mult_right)
    with "1.IH" [OF True step] True dD dcd cd m'
    obtain cfgs' where "bcast_loop N count (i + 1) (c_div D 2) (c_div cd 2) mid = Inr cfgs'"
      by auto
    with True step show ?thesis
      by (subst bcast_loop.simps) simp
  qed
qed

lemma bcast_loop_length:
  "bcast_loop N count i D cd cfgs = Inr cfgs' \<Longrightarrow> length cfgs = nat N \<Longrightarrow>
   length cfgs' = nat N"
proof (induction N count i D cd cfgs rule: bcast_loop.induct)
  case (1 N count i D cd cfgs)
  show ?case
  proof (cases "i < count")
    case False
    with "1.prems" show ?thesis by (simp add: bcast_loop.simps)
  next
    case True
    from bcast_loop_unfold [OF True "1.prems"(1)] obtain mid where
      step: "bcast_step N D cd cfgs = Inr mid" and
      rest: "bcast_loop N count (i + 1) (c_div D 2) (c_div cd 2) mid = Inr cfgs'"
      by blast
    from "1.IH" [OF True step rest] bcast_step_Inr(1) [OF step] show ?thesis by simp
  qed
qed

lemma Get_input_bcast_pow2:
  assumes N: "comm_sz = 2 ^ nat (Get_input_count fp comm_sz)"
    and rng: "comm_sz \<le> INT_MAX"
    and len: "length cfgs = nat comm_sz"
  shows "Get_input_bcast fp comm_sz cfgs = Inr (replicate (nat comm_sz) (cfgs ! 0))"
proof -
  define count where "count = Get_input_count fp comm_sz"
  have st: "Get_input_setup fp comm_sz =
      Inr (count, if count < 0 then 0 else 2 ^ nat count,
           c_div (if count < 0 then 0 else 2 ^ nat count) 2)"
    using N rng by (auto simp: Get_input_setup_def Let_def pow2_int_def count_def)
  have "\<exists>cfgs'. Get_input_bcast fp comm_sz cfgs = Inr cfgs'"
  proof (cases "count \<le> 0")
    case True
    then show ?thesis
      by (simp add: Get_input_bcast_def st bcast_loop.simps)
  next
    case False
    have "\<exists>cfgs'. bcast_loop comm_sz count 0 (2 ^ nat count) (2 ^ nat count div 2) cfgs = Inr cfgs'"
      using False N by (intro bcast_loop_pow2) (simp_all add: count_def)
    with False show ?thesis
      by (simp add: Get_input_bcast_def st c_div_pow2)
  qed
  then obtain cfgs' where run: "Get_input_bcast fp comm_sz cfgs = Inr cfgs'" by auto
  then have "length cfgs' = nat comm_sz"
    using len by (auto simp: Get_input_bcast_def split: sum.splits dest: bcast_loop_length)
  moreover have "cfgs' ! j = cfgs ! 0" if "j < nat comm_sz" for j
    using Get_input_bcast_partial [OF run, of "int j"] N that by simp
  ultimately have "cfgs' = replicate (nat comm_sz) (cfgs ! 0)"
    by (intro nth_equalityI) simp_all
  with run show ?thesis by simp
qed

text \<open>
  Claim C1, as amended.  The root of the broadcast is rank 0.  For every group size
  \<open>comm_sz \<ge> 1\<close> for which the computed \<open>count\<close> satisfies \<open>comm_sz \<le> 2 ^ count\<close> (as
  the ceiling of the binary logarithm does): whenever the broadcast phase of \<open>Get_input\<close>
  completes at all ranks, every rank holds the configuration \<open>(a, b, n)\<close> that rank 0
  held before the broadcast, as the same values; and when \<open>comm_sz = 2 ^ count\<close> the
  broadcast phase does complete at all ranks.
\<close>

theorem Get_input_bcast_root0:
  assumes "1 \<le> comm_sz" and "comm_sz \<le> INT_MAX"
    and "comm_sz \<le> 2 ^ nat (Get_input_count fp comm_sz)"
    and "length cfgs = nat comm_sz"
  shows "(\<forall>cfgs' k. Get_input_bcast fp comm_sz cfgs = Inr cfgs' \<and> 0 \<le> k \<and> k < comm_sz
            \<longrightarrow> cfgs' ! nat k = cfgs ! 0)
       \<and> (comm_sz = 2 ^ nat (Get_input_count fp comm_sz)
            \<longrightarrow> Get_input_bcast fp comm_sz cfgs = Inr (replicate (nat comm_sz) (cfgs ! 0)))"
  using assms Get_input_bcast_partial [of fp comm_sz cfgs] Get_input_bcast_pow2 [of comm_sz fp cfgs]
  by blast

theorem Get_input_bcast_root0_witness:
  "(1::int) \<le> 4 \<and> (4::int) \<le> INT_MAX \<and> (4::int) \<le> 2 ^ nat (Get_input_count exact_fpu 4)
   \<and> length [(0, 1, 4), (5, 5, 5), (6, 6, 6), (7, 7, 7::int)] = nat 4
   \<and> (4::int) = 2 ^ nat (Get_input_count exact_fpu 4)
   \<and> Get_input_bcast exact_fpu 4 [(0, 1, 4), (5, 5, 5), (6, 6, 6), (7, 7, 7)] =
       Inr [(0, 1, 4), (0, 1, 4), (0, 1, 4), (0, 1, 4)]"
  using Get_input_bcast_root0 [of 4 exact_fpu "[(0, 1, 4), (5, 5, 5), (6, 6, 6), (7, 7, 7)]"]
    exact_count [of 4 2]
  by (simp add: INT_MAX_def numeral_eq_Suc)

text \<open>
  Claim C1 as stated fails.  With two ranks and the configuration to be distributed held
  by rank 1, the broadcast ends with both ranks holding the values of rank 0: the root
  is not a parameter.  With three ranks the broadcast does not complete: in the
  second iteration rank 2 waits for a message from rank 1.
\<close>

theorem Get_input_bcast_counterexample:
  "Get_input_bcast exact_fpu 2 [(0, 1, 4), (5, 5, 5)] = Inr [(0, 1, 4), (0, 1, 4)]
   \<and> [(0, 1, 4), (5, 5, 5)] ! 1 \<noteq> ((0, 1, 4) :: real config)
   \<and> Get_input_bcast exact_fpu 3 [(0, 1, 4), (5, 5, 5), (6, 6, 6)] = Inl (Blocked 2 1)"
  using exact_count [of 2 1] exact_count [of 3 2]
  by (simp add: Get_input_bcast_def Get_input_setup_def pow2_int_def INT_MAX_def
      bcast_loop.simps bcast_step_def bcast_rank_def Get_input_body_def c_mod_def c_div_def
      upto_0_Suc)


section \<open>Group sizes that are not powers of two\<close>

lemma two_power_odd:
  "0 < (N::int) \<Longrightarrow> \<exists>t q. N = 2 ^ t * q \<and> odd q"
proof (induction "nat N" arbitrary: N rule: less_induct)
  case less
  show ?case
  proof (cases "odd N")
    case True
    then have "N = 2 ^ 0 * N \<and> odd N" by simp
    then show ?thesis by blast
  next
    case False
    then obtain M where M: "N = 2 * M" by (auto elim: evenE)
    with less.prems have "0 < M" "nat M < nat N" by simp_all
    from less.hyps [OF this(2) this(1)] obtain t q where "M = 2 ^ t * q" "odd q" by blast
    with M have "N = 2 ^ Suc t * q \<and> odd q" by simp
    then show ?thesis by blast
  qed
qed

lemma bcast_rank_blocked_indep:
  "bcast_rank N D cd cfgs k = Inl e \<Longrightarrow> bcast_rank N D cd cfgs2 k = Inl e"
  by (auto simp: bcast_rank_def split: sum.splits action.splits if_splits)

lemma bcast_loop_all_steps:
  "bcast_loop N count i D cd cfgs = Inr cfgs' \<Longrightarrow>
   (D', cd') \<in> set (loop_states count i D cd) \<Longrightarrow> 0 \<le> k \<Longrightarrow> k < N \<Longrightarrow>
   bcast_rank N D' cd' cfgs2 k \<noteq> Inl e"
proof (induction N count i D cd cfgs rule: bcast_loop.induct)
  case (1 N count i D cd cfgs)
  show ?case
  proof (cases "i < count")
    case False
    with "1.prems"(2) show ?thesis by (simp add: loop_states.simps)
  next
    case True
    from bcast_loop_unfold [OF True "1.prems"(1)] obtain mid where
      step: "bcast_step N D cd cfgs = Inr mid" and
      rest: "bcast_loop N count (i + 1) (c_div D 2) (c_div cd 2) mid = Inr cfgs'"
      by blast
    from True "1.prems"(2) consider "(D', cd') = (D, cd)"
      | "(D', cd') \<in> set (loop_states count (i + 1) (c_div D 2) (c_div cd 2))"
      by (subst (asm) loop_states.simps) auto
    then show ?thesis
    proof cases
      case 1
      from bcast_step_Inr(2) [OF step "1.prems"(3,4)] 1 show ?thesis
        using bcast_rank_blocked_indep [of N D cd cfgs2 k e cfgs] by auto
    next
      case 2
      from "1.IH" [OF True step rest 2 "1.prems"(3,4)] show ?thesis .
    qed
  qed
qed

text \<open>
  For \<open>comm_sz = 2 ^ t * q\<close> with \<open>q\<close> odd and at least 3, in the iteration with
  \<open>core_difference = 2 ^ t\<close> the rank \<open>comm_sz - 2 ^ t\<close> is a multiple of \<open>divisor\<close>
  without a partner: it executes the receive branch, and its source is not sending.
\<close>

lemma not_power_blocks:
  assumes q: "odd q" "3 \<le> q" and N: "N = 2 ^ t * q"
  shows "bcast_rank N (2 ^ Suc t) (2 ^ t) cfgs (N - 2 ^ t) =
           Inl (Blocked (N - 2 ^ t) (N - 2 ^ Suc t))"
proof -
  from q obtain r where r: "q = 2 * r + 1" "1 \<le> r" by (auto elim!: oddE)
  let ?cd = "(2::int) ^ t" and ?k = "N - 2 ^ t"
  have k: "?k = 2 ^ Suc t * r" using N r by (simp add: algebra_simps)
  have cd: "0 < ?cd" by simp
  have k0: "0 \<le> ?k" using k r by simp
  have kD: "?k mod 2 ^ Suc t = 0" using k by simp
  have kcd: "?k mod ?cd = 0" using k by simp
  have src: "?k - ?cd = ?cd * (2 * r - 1)" using k by (simp add: algebra_simps)
  have src0: "0 \<le> ?k - ?cd" using r unfolding src by simp
  have srcN: "?k - ?cd < N" using cd k0 by simp
  have "odd (2 * r - 1)" by simp
  then have srcD: "(?k - ?cd) mod (2 * ?cd) \<noteq> 0"
    unfolding src by (simp add: mod_eq_0_iff_dvd)
  have b: "Get_input_body ?k N (2 ^ Suc t) ?cd = Inr (Recv (?k - ?cd))"
    using body_Recv_iff [of ?cd "2 ^ Suc t" ?k N] cd k0 kcd by simp
  have s: "Get_input_body (?k - ?cd) N (2 ^ Suc t) ?cd \<noteq> Inr (Send ?k)"
    using body_Send_iff [of ?cd "2 ^ Suc t" "?k - ?cd" N ?k] cd src0 srcD by simp
  have "?k - ?cd = N - 2 ^ Suc t" by simp
  with b s src0 srcN show ?thesis
    by (simp add: bcast_rank_def)
qed

text \<open>
  Hence, when \<open>count\<close> is the ceiling of the binary logarithm of \<open>comm_sz\<close> and
  \<open>comm_sz\<close> is not a power of two, the broadcast phase never completes at all ranks.
\<close>

lemma Get_input_bcast_not_power:
  assumes N1: "1 \<le> comm_sz"
    and up: "comm_sz \<le> 2 ^ nat (Get_input_count fp comm_sz)"
    and lo: "2 ^ nat (Get_input_count fp comm_sz) < 2 * comm_sz"
    and np: "comm_sz \<noteq> 2 ^ nat (Get_input_count fp comm_sz)"
  shows "Get_input_bcast fp comm_sz cfgs \<noteq> Inr cfgs'"
proof
  assume run: "Get_input_bcast fp comm_sz cfgs = Inr cfgs'"
  define c where "c = nat (Get_input_count fp comm_sz)"
  from N1 obtain t q where tq: "comm_sz = 2 ^ t * q" "odd q"
    using two_power_odd [of comm_sz] by auto
  from N1 tq have "0 < 2 ^ t * q" by simp
  then have q0: "0 < q" by (simp add: zero_less_mult_iff)
  have "q \<noteq> 1"
  proof
    assume "q = 1"
    with tq up lo have "(2::int) ^ t \<le> 2 ^ c" "(2::int) ^ c < 2 ^ Suc t" by (simp_all add: c_def)
    then have "t \<le> c" "c < Suc t" by (simp_all del: power_Suc)
    then have "c = t" by simp
    with np tq \<open>q = 1\<close> show False by (simp add: c_def)
  qed
  with q0 tq(2) have q3: "3 \<le> q" by presburger
  have "(2::int) ^ t * 2 < 2 ^ t * q"
    using q3 by (intro mult_strict_left_mono) simp_all
  then have "(2::int) ^ Suc t < comm_sz" by (simp add: tq(1) mult.commute)
  from this up have "(2::int) ^ Suc t < 2 ^ c" unfolding c_def by (rule less_le_trans)
  then have tc: "Suc t < c" by (simp del: power_Suc)
  from run obtain count divisor cd where st: "Get_input_setup fp comm_sz = Inr (count, divisor, cd)"
    and loop: "bcast_loop comm_sz count 0 divisor cd cfgs = Inr cfgs'"
    by (auto simp: Get_input_bcast_def split: sum.splits)
  from setup_cases(1) [OF st] have cnt: "nat count = c" by (simp add: c_def)
  have "(2 ^ Suc t, 2 ^ t) \<in> set (loop_states count 0 divisor cd)"
    unfolding setup_loop_states [OF st] cnt
  proof -
    have "c - Suc t < c" using tc by simp
    moreover have "((2::int) ^ (c - (c - Suc t)), (2::int) ^ (c - (c - Suc t)) div 2) = (2 ^ Suc t, 2 ^ t)"
      using tc by simp
    ultimately show "((2::int) ^ Suc t, (2::int) ^ t)
        \<in> set (map (\<lambda>j. (2 ^ (c - j), 2 ^ (c - j) div 2)) [0..<c])"
      by (metis (no_types, lifting) atLeastLessThan_iff imageI image_set set_upt zero_le)
  qed
  moreover have "(2::int) ^ t * 1 \<le> 2 ^ t * q"
    using q3 by (intro mult_left_mono) simp_all
  then have "0 \<le> comm_sz - 2 ^ t" "comm_sz - 2 ^ t < comm_sz"
    using tq by simp_all
  ultimately have "bcast_rank comm_sz (2 ^ Suc t) (2 ^ t) cfgs (comm_sz - 2 ^ t)
      \<noteq> Inl (Blocked (comm_sz - 2 ^ t) (comm_sz - 2 ^ Suc t))"
    by (rule bcast_loop_all_steps [OF loop])
  with not_power_blocks [OF tq(2) q3 tq(1), of cfgs] show False by simp
qed


section \<open>Rank 0 in the broadcast\<close>

lemma body_root_sends:
  "0 < d \<Longrightarrow> c < N \<Longrightarrow> Get_input_body 0 N d c = Inr (Send c)"
  by (simp add: Get_input_body_def c_mod_def)

lemma bcast_rank_root_keeps:
  "0 < d \<Longrightarrow> c < N \<Longrightarrow> bcast_rank N d c cfgs 0 = Inr (cfgs ! 0)"
  by (simp add: bcast_rank_def body_root_sends)

lemma bcast_loop_root:
  "bcast_loop N count i D cd cfgs = Inr cfgs' \<Longrightarrow> 0 < N \<Longrightarrow>
   D = 2 ^ nat (count - i) \<Longrightarrow> cd = D div 2 \<Longrightarrow> cd < N \<Longrightarrow> cfgs' ! 0 = cfgs ! 0"
proof (induction N count i D cd cfgs rule: bcast_loop.induct)
  case (1 N count i D cd cfgs)
  show ?case
  proof (cases "i < count")
    case False
    with "1.prems" show ?thesis by (simp add: bcast_loop.simps)
  next
    case True
    then obtain m where m: "nat (count - i) = Suc m"
      by (cases "nat (count - i)") auto
    with True have m': "nat (count - (i + 1)) = m" by simp
    from m "1.prems" have D: "D = 2 * 2 ^ m" and cd: "cd = 2 ^ m" by simp_all
    from bcast_loop_unfold [OF True "1.prems"(1)] obtain mid where
      step: "bcast_step N D cd cfgs = Inr mid" and
      rest: "bcast_loop N count (i + 1) (c_div D 2) (c_div cd 2) mid = Inr cfgs'"
      by blast
    have dD: "c_div D 2 = cd"
      using D cd c_div_pow2 [of "Suc m"] by simp
    have dcd: "c_div cd 2 = cd div 2"
      using cd c_div_pow2 [of m] by simp
    have "cd div 2 \<le> cd"
      using cd by (cases m) simp_all
    with "1.prems"(5) have "cd div 2 < N" by simp
    with "1.IH" [OF True step rest] "1.prems"(2) dD dcd cd m'
    have "cfgs' ! 0 = mid ! 0" by simp
    moreover from bcast_step_Inr(2) [OF step, of 0] "1.prems"(2,5) D
      bcast_rank_root_keeps [of D cd N cfgs]
    have "mid ! 0 = cfgs ! 0" by simp
    ultimately show ?thesis by simp
  qed
qed

text \<open>
  For every group size \<open>comm_sz > 1\<close> whose setup succeeds with a \<open>count\<close> that is not
  too large (\<open>2 ^ count < 2 * comm_sz\<close>, as for the ceiling of the binary logarithm): in
  every iteration of the loop rank 0 executes the send branch, with destination
  \<open>core_difference\<close>, and keeps its values; so whenever the broadcast phase completes,
  rank 0 holds the \<open>a\<close>, \<open>b\<close>, \<open>n\<close> it held before.
\<close>

lemma root_sends:
  assumes N: "1 < comm_sz"
    and st: "Get_input_setup fp comm_sz = Inr (count, divisor, core_difference)"
    and cnt: "2 ^ nat count < 2 * comm_sz"
  shows "(\<forall>(d, c) \<in> set (loop_states count 0 divisor core_difference).
            Get_input_body 0 comm_sz d c = Inr (Send c)
            \<and> bcast_rank comm_sz d c cfgs 0 = Inr (cfgs ! 0))
       \<and> (\<forall>cfgs'. Get_input_bcast fp comm_sz cfgs = Inr cfgs' \<longrightarrow> cfgs' ! 0 = cfgs ! 0)"
proof -
  let ?g = "\<lambda>j. ((2::int) ^ (nat count - j), (2::int) ^ (nat count - j) div 2)"
  have L: "loop_states count 0 divisor core_difference = map ?g [0..<nat count]"
    by (rule setup_loop_states [OF st])
  have half: "(2::int) ^ nat count div 2 < comm_sz"
    using cnt by simp
  have el: "Get_input_body 0 comm_sz (fst (?g j)) (snd (?g j)) = Inr (Send (snd (?g j)))
            \<and> bcast_rank comm_sz (fst (?g j)) (snd (?g j)) cfgs 0 = Inr (cfgs ! 0)"
    if "j < nat count" for j
  proof -
    have "(2::int) ^ (nat count - j) \<le> 2 ^ nat count"
      by (rule power_increasing) simp_all
    then have "(2::int) ^ (nat count - j) div 2 \<le> 2 ^ nat count div 2"
      by (rule zdiv_mono1) simp
    with half have "snd (?g j) < comm_sz" by simp
    then show ?thesis
      by (simp add: body_root_sends bcast_rank_root_keeps)
  qed
  have run: "cfgs' ! 0 = cfgs ! 0" if r: "Get_input_bcast fp comm_sz cfgs = Inr cfgs'" for cfgs'
  proof (cases "count < 0")
    case True
    with r st show ?thesis
      by (simp add: Get_input_bcast_def bcast_loop.simps)
  next
    case False
    with setup_cases(2) [OF st]
    have dc: "divisor = 2 ^ nat count" "core_difference = divisor div 2"
      by simp_all
    from r st have "bcast_loop comm_sz count 0 divisor core_difference cfgs = Inr cfgs'"
      by (simp add: Get_input_bcast_def)
    from bcast_loop_root [OF this] N dc half show ?thesis by simp
  qed
  from el run show ?thesis
    unfolding L by auto
qed


section \<open>Input at the root\<close>

text \<open>
  Claim C8, as amended.  With a missing file the run never completes \<open>Get_input\<close>: the
  root calls \<open>fscanf\<close> on the \<open>NULL\<close> stream before the loop starts.  A file that is
  present is never rejected: whatever \<open>fscanf\<close> converts is stored, the variables it
  does not reach keep their (uninitialised) contents, no error is raised, and the
  broadcast then runs on these values as on valid input.
\<close>

theorem Get_input_no_validation:
  "Get_input fp comm_sz NoFile init \<noteq> Inr cfgs
   \<and> snd (Get_input_read 0 NoFile cfg) = Inl NullStream
   \<and> snd (Get_input_read 0 (File s) cfg) = Inr (fscanf3 s cfg)
   \<and> Get_input fp comm_sz (File s) init =
       Get_input_bcast fp comm_sz (init [0 := fscanf3 s (init ! 0)])"
proof -
  have missing: "snd (Get_input_read 0 NoFile cfg') = Inl NullStream" for cfg' :: "'a config"
    by (simp add: Get_input_read_def)
  have stored: "snd (Get_input_read 0 (File s) cfg') = Inr (fscanf3 s cfg')" for cfg'
    by (simp add: Get_input_read_def split: prod.splits)
  from missing have "Get_input fp comm_sz NoFile init \<noteq> Inr cfgs"
    by (simp add: Get_input_def split: sum.splits prod.splits)
  moreover from stored have "Get_input fp comm_sz (File s) init =
      Get_input_bcast fp comm_sz (init [0 := fscanf3 s (init ! 0)])"
    by (simp add: Get_input_def Get_input_bcast_def split: sum.splits prod.splits)
  ultimately show ?thesis using missing stored by simp
qed

text \<open>
  Claim C8 as stated fails: with a file of which nothing can be converted and two ranks,
  no error is raised and rank 1 receives the uninitialised contents \<open>(7, 8, 9)\<close> of the
  root's variables.
\<close>

theorem Get_input_unparsable_counterexample:
  "Get_input exact_fpu 2 (File Scan0) [(7, 8, 9), (0, 0, 0)] = Inr [(7, 8, 9), (7, 8, 9)]"
  using exact_setup [of 2 1]
  by (simp add: Get_input_def Get_input_read_def INT_MAX_def bcast_loop.simps bcast_step_def
      bcast_rank_def Get_input_body_def c_mod_def c_div_def upto_0_Suc)


section \<open>Reduction at the root\<close>

lemma reduce_loop_fold:
  "1 \<le> source \<Longrightarrow>
   reduce_loop fp N ints source t =
     Inr (foldl (fadd fp) t (map (\<lambda>s. ints ! nat s) [source .. N - 1]))"
proof (induction fp N ints source t rule: reduce_loop.induct)
  case (1 fp N ints source t)
  show ?case
  proof (cases "source < N")
    case False
    then show ?thesis by (subst reduce_loop.simps) simp
  next
    case True
    then have up: "[source .. N - 1] = source # [source + 1 .. N - 1]"
      by (simp add: upto_rec1)
    from "1.prems" have r: "main_recv ints 0 source = Inr (ints ! nat source)"
      by (simp add: main_recv_def main_send_def)
    from "1.IH" [OF True r] "1.prems" True r show ?thesis
      by (subst reduce_loop.simps) (simp add: up)
  qed
qed

text \<open>
  Claim C3.  For every group size and every list of local estimates, the reduction at
  rank 0 starts from the root's own estimate and receives and adds the estimates of the
  ranks \<open>1, ..., comm_sz - 1\<close> in increasing order, never blocking: the total is
  \<open>((local_0 + local_1) + ...) + local_(comm_sz - 1)\<close>, each \<open>+\<close> the addition of
  \<open>double\<close>.
\<close>

theorem main_reduce_fold:
  "main_reduce fp comm_sz ints =
     Inr (foldl (fadd fp) (ints ! 0) (map (\<lambda>source. ints ! nat source) [1 .. comm_sz - 1]))"
proof -
  have "reduce_loop fp comm_sz ints 1 (ints ! 0) =
      Inr (foldl (fadd fp) (ints ! 0) (map (\<lambda>s. ints ! nat s) [1 .. comm_sz - 1]))"
    by (rule reduce_loop_fold) simp
  then show ?thesis
    by (simp add: main_reduce_def)
qed


section \<open>Output\<close>

text \<open>
  Claim C9.  A rank other than 0 prints nothing, neither in \<open>Get_input\<close> nor at the end
  of \<open>main\<close>; in a completed run the output of every rank \<open>k\<close> with \<open>0 < k < comm_sz\<close>
  is empty.
\<close>

theorem only_root_prints:
  "(my_rank \<noteq> 0 \<longrightarrow>
      fst (Get_input_read my_rank infile cfg) = [] \<and> main_print my_rank cfg total_int = [])
   \<and> (mpi_trap2 fp comm_sz infile init = Inr r \<and> 0 < k \<and> k < comm_sz \<longrightarrow>
        printed_by r ! nat k = [])"
  by (auto simp: mpi_trap2_def Let_def Get_input_read_def main_print_def
      split: sum.splits prod.splits)

lemma mpi_trap2_two_ranks:
  "mpi_trap2 exact_fpu 2 (File (Scan3 0 1 4)) [(7, 8, 9), (3, 3, 3)] =
     Inr \<lparr> configs = [(0, 1, 4), (0, 1, 4)], estimates = [3/64, 19/64], total = 11/32,
           printed_by = [[IAm 0, InputValues 0 1 4, EstimateN 4, EstimateOf 0 1 (11/32)], []] \<rparr>"
proof -
  have "Get_input exact_fpu 2 (File (Scan3 0 1 4)) [(7, 8, 9), (3, 3, 3)] =
          Inr [(0, 1, 4), (0, 1, 4)]"
    using exact_setup [of 2 1]
    by (simp add: Get_input_def Get_input_read_def INT_MAX_def bcast_loop.simps bcast_step_def
        bcast_rank_def Get_input_body_def c_mod_def c_div_def upto_0_Suc)
  moreover have "[1 .. 1] = [1::int]"
    by (simp add: upto_rec1)
  ultimately show ?thesis
    by (simp add: mpi_trap2_def main_reduce_def reduce_loop_fold main_local_def Trap_def
        Trap_run_eq interior_def main_print_def Get_input_read_def Let_def upto_0_Suc
        exact_fpu_def f_def c_div_def)
qed

text \<open>
  Four ranks on \<open>[0, 1]\<close> with \<open>n = 4\<close>, in exact arithmetic: one trapezoid of width
  \<open>1/4\<close> per rank, and the total \<open>11/32 = 0.34375\<close>.
\<close>

lemma mpi_trap2_four_ranks:
  "mpi_trap2 exact_fpu 4 (File (Scan3 0 1 4)) [(7, 8, 9), (3, 3, 3), (2, 2, 2), (1, 1, 1)] =
     Inr \<lparr> configs = [(0, 1, 4), (0, 1, 4), (0, 1, 4), (0, 1, 4)],
           estimates = [1/128, 5/128, 13/128, 25/128], total = 11/32,
           printed_by = [[IAm 0, InputValues 0 1 4, EstimateN 4, EstimateOf 0 1 (11/32)],
                         [], [], []] \<rparr>"
proof -
  have "Get_input exact_fpu 4 (File (Scan3 0 1 4)) [(7, 8, 9), (3, 3, 3), (2, 2, 2), (1, 1, 1)] =
          Inr [(0, 1, 4), (0, 1, 4), (0, 1, 4), (0, 1, 4)]"
    using exact_setup [of 4 2]
    by (simp add: Get_input_def Get_input_read_def INT_MAX_def bcast_loop.simps bcast_step_def
        bcast_rank_def Get_input_body_def c_mod_def c_div_def upto_0_Suc)
  moreover have "[1 .. 3] = [1, 2, 3::int]" "[1 .. 0] = ([]::int list)"
    by (simp_all add: upto_rec1)
  ultimately show ?thesis
    by (simp add: mpi_trap2_def main_reduce_def reduce_loop_fold main_local_def Trap_def
        Trap_run_eq interior_def main_print_def Get_input_read_def Let_def upto_0_Suc
        exact_fpu_def f_def c_div_def)
qed

theorem only_root_prints_witness:
  "(1::int) \<noteq> 0 \<and> (0::int) < 1 \<and> (1::int) < 2
   \<and> main_print 1 (0, 1, 4) (11/32 :: real) = []
   \<and> printed_by \<lparr> configs = [(0, 1, 4), (0, 1, 4)], estimates = [3/64, 19/64],
                   total = 11/32 :: real,
                   printed_by = [[IAm 0, InputValues 0 1 4, EstimateN 4,
                                  EstimateOf 0 1 (11/32)], []] \<rparr> ! nat 1 = []"
  using only_root_prints [where my_rank = 1 and infile = "File (Scan3 0 1 4)" and cfg = "(0, 1, 4)"
      and total_int = "11/32 :: real" and fp = exact_fpu and comm_sz = 2
      and init = "[(7, 8, 9), (3, 3, 3)]" and k = 1] mpi_trap2_two_ranks
  by simp


section \<open>The iteration count in double precision\<close>

lemma count_2_29:
  assumes "libm_log 2 = 6243314768165359 / 2 ^ 53"
    and "libm_log 536870912 = 5658004008649857 / 2 ^ 48"
  shows "Get_input_count (binary64 libm_log) 536870912 = 30"
proof -
  have "fdiv (binary64 libm_log) (flog (binary64 libm_log) (of_int_d (binary64 libm_log) 536870912))
          (flog (binary64 libm_log) (of_int_d (binary64 libm_log) 2)) =
        round64 (libm_log 536870912 / libm_log 2)"
    by (simp add: binary64_def round64_2 round64_2_29)
  also have "\<dots> = round64 ((5658004008649857 / 2 ^ 48) / (6243314768165359 / 2 ^ 53))"
    by (simp only: assms)
  also have "\<dots> = 29 + 1 / 2 ^ 48"
    by (rule round64_quotient)
  finally show ?thesis
    by (simp add: Get_input_count_def binary64_def ceiling_eq_iff)
qed

lemma setup_2_29:
  assumes "libm_log 2 = 6243314768165359 / 2 ^ 53"
    and "libm_log 536870912 = 5658004008649857 / 2 ^ 48"
  shows "Get_input_setup (binary64 libm_log) 536870912 = Inr (30, 1073741824, 536870912)"
  using count_2_29 [OF assms]
  by (simp add: Get_input_setup_def pow2_int_def INT_MAX_def c_div_def)

text \<open>In exact arithmetic the loop runs \<open>ceil(log2(comm_sz))\<close> times.\<close>

lemma exact_iterations_length:
  assumes "1 \<le> N" "N \<le> 2 ^ 30"
  shows "length (Get_input_iterations exact_fpu N) = nat \<lceil>log 2 (real_of_int N)\<rceil>"
proof -
  define c where "c = Get_input_count exact_fpu N"
  have c: "c = \<lceil>log 2 (real_of_int N)\<rceil>"
    by (simp add: c_def Get_input_count_def exact_fpu_def log_def)
  from exact_count_ceiling [OF assms(1)] assms(2)
  have "0 \<le> c" and lt: "(2::int) ^ nat c < 2 ^ 31" by (simp_all add: c_def)
  have "nat c < 31"
    by (rule power_less_imp_less_exp [of 2, OF _ lt]) simp
  then have "(2::int) ^ nat c \<le> 2 ^ 30"
    by (intro power_increasing) simp_all
  with \<open>0 \<le> c\<close> have "Get_input_setup exact_fpu N = Inr (c, 2 ^ nat c, c_div (2 ^ nat c) 2)"
    by (simp add: Get_input_setup_def pow2_int_def INT_MAX_def flip: c_def)
  from iterations_eq [OF this] show ?thesis
    by (simp add: c)
qed

text \<open>
  Claim C6 at \<open>comm_sz = 2 ^ 29 = 536870912\<close>.  Let libm's \<open>log\<close> return the doubles
  nearest to the logarithms, \<open>0x1.62e42fefa39efp-1\<close> for \<open>log(2)\<close> and
  \<open>0x1.419ecb712c481p+4\<close> for \<open>log(536870912)\<close>.  Their quotient rounds to
  \<open>29 + 2^-48\<close>, so \<open>count = 30\<close> and the loop runs 30 times, while the ceiling of the
  binary logarithm, which exact arithmetic would give, is 29.
\<close>

theorem count_at_2_29:
  assumes "libm_log 2 = 6243314768165359 / 2 ^ 53"
    and "libm_log 536870912 = 5658004008649857 / 2 ^ 48"
  shows "(536870912::int) = 2 ^ 29
       \<and> Get_input_count exact_fpu 536870912 = 29
       \<and> Get_input_count (binary64 libm_log) 536870912 = 30
       \<and> length (Get_input_iterations (binary64 libm_log) 536870912) = 30"
  using count_2_29 [OF assms] iterations_eq [OF setup_2_29 [OF assms]]
    exact_count [of 536870912 29]
  by simp

theorem count_at_2_29_witness:
  "(\<lambda>x::real. if x = 2 then 6243314768165359 / 2 ^ 53 else 5658004008649857 / 2 ^ 48) 2 =
     6243314768165359 / 2 ^ 53
   \<and> Get_input_count
       (binary64 (\<lambda>x. if x = 2 then 6243314768165359 / 2 ^ 53 else 5658004008649857 / 2 ^ 48))
       536870912 = 30"
  using count_at_2_29 [of "\<lambda>x. if x = 2 then 6243314768165359 / 2 ^ 53 else 5658004008649857 / 2 ^ 48"]
  by simp

text \<open>
  Claim C10 at \<open>comm_sz = 2 ^ 29\<close>, with the same values of libm's \<open>log\<close>.  The first
  iteration has \<open>divisor = 2 ^ 30\<close> and \<open>core_difference = 2 ^ 29\<close>; rank 0 fails
  \<open>my_rank + core_difference < comm_sz\<close> and executes the receive branch with the
  source \<open>- 2 ^ 29\<close>, which is no rank: the broadcast fails at rank 0.
\<close>

theorem root_receives_at_2_29:
  assumes "libm_log 2 = 6243314768165359 / 2 ^ 53"
    and "libm_log 536870912 = 5658004008649857 / 2 ^ 48"
  shows "hd (Get_input_iterations (binary64 libm_log) 536870912) = (1073741824, 536870912)
       \<and> Get_input_body 0 536870912 1073741824 536870912 = Inr (Recv (- 536870912))
       \<and> Get_input_bcast (binary64 libm_log) 536870912 cfgs = Inl (InvalidRank 0 (- 536870912))"
proof -
  note st = setup_2_29 [OF assms]
  have b: "Get_input_body 0 536870912 1073741824 536870912 = Inr (Recv (- 536870912))"
    by (simp add: Get_input_body_def c_mod_def)
  have "[0 .. 536870912 - 1] = 0 # [0 + 1 .. 536870912 - 1]"
    by (rule upto_rec1) simp
  then have "bcast_step 536870912 1073741824 536870912 cfgs = Inl (InvalidRank 0 (- 536870912))"
    by (simp add: bcast_step_def bcast_rank_def b)
  then have "Get_input_bcast (binary64 libm_log) 536870912 cfgs = Inl (InvalidRank 0 (- 536870912))"
    by (simp add: Get_input_bcast_def st bcast_loop.simps)
  moreover have "hd (Get_input_iterations (binary64 libm_log) 536870912) = (1073741824, 536870912)"
    by (simp add: iterations_setup [OF st] loop_states.simps)
  ultimately show ?thesis using b by simp
qed

theorem root_receives_at_2_29_witness:
  "(\<lambda>x::real. if x = 2 then 6243314768165359 / 2 ^ 53 else 5658004008649857 / 2 ^ 48) 536870912 =
     5658004008649857 / 2 ^ 48
   \<and> Get_input_bcast
       (binary64 (\<lambda>x. if x = 2 then 6243314768165359 / 2 ^ 53 else 5658004008649857 / 2 ^ 48))
       536870912 [] = Inl (InvalidRank 0 (- 536870912))"
  using root_receives_at_2_29
    [of "\<lambda>x. if x = 2 then 6243314768165359 / 2 ^ 53 else 5658004008649857 / 2 ^ 48" "[]"]
  by simp

end
